theory Spec2Isabelle
  imports Complex_Main "HOL-Library.Sublist"
begin

section \<open>Data model\<close>

text \<open>
  The view \<open>CaseAccessRequest\<close> keeps its state in seven \<open>useState\<close> cells. Every
  handler is modelled as a function from the state it runs on to the state it leaves.
  An \<open>async\<close> handler is split at its \<open>await\<close>: the part that runs when the handler
  is invoked, and the continuation that runs when the awaited call settles, which takes
  the state of that later moment and the outcome of the call.
\<close>

datatype Status = PENDING | APPROVED

text \<open>The interface \<open>CaseRequest\<close>; the field \<open>id\<close> is named \<open>id_of\<close> here.\<close>

record CaseRequest =
  id_of :: string
  caseId :: string
  lawyerAddress :: string
  lawyerUid :: "string option"
  requestedAt :: int
  status :: Status
  lawyerName :: "string option"
  lawyerEmail :: "string option"

text \<open>
  Modelled from the spec: the type \<open>ApiError\<close> is imported from \<open>../types\<close>, which is
  not among the sources. The spec describes it as a thrown error value carrying an
  optional human-readable message field.
\<close>

datatype ApiError = ApiError (message: "string option")

record view_state =
  requests :: "CaseRequest list"
  isLoading :: bool
  error :: string
  approving :: "string \<rightharpoonup> bool"
  searchTerm :: string
  currentPage :: int
  pageSize :: int

text \<open>The initial values handed to \<open>useState\<close>.\<close>

definition initial_state :: view_state where
  "initial_state =
     \<lparr>requests = [], isLoading = True, error = '''', approving = Map.empty,
      searchTerm = '''', currentPage = 1, pageSize = 6\<rparr>"

subsection \<open>JavaScript operators on strings and lists\<close>

text \<open>\<open>s || d\<close> on a string: the empty string is falsy.\<close>

definition or_str :: "string \<Rightarrow> string \<Rightarrow> string" where
  "or_str s d = (if s = [] then d else s)"

text \<open>\<open>s || d\<close> on an optional string: \<open>undefined\<close> and the empty string are falsy.\<close>

definition or_opt :: "string option \<Rightarrow> string \<Rightarrow> string" where
  "or_opt s d = (case s of None \<Rightarrow> d | Some t \<Rightarrow> or_str t d)"

text \<open>\<open>data || []\<close> on an optional array: an array, also an empty one, is truthy.\<close>

definition or_list :: "'a list option \<Rightarrow> 'a list \<Rightarrow> 'a list" where
  "or_list xs d = (case xs of None \<Rightarrow> d | Some ys \<Rightarrow> ys)"

text \<open>
  \<open>String.prototype.toLowerCase\<close> and \<open>String.prototype.trim\<close> are primitives of the
  language, not code of the view, and they act on all of Unicode. The filter below is
  therefore defined with the two as parameters (\<open>matches_with\<close>,
  \<open>filteredRequests_with\<close>). The functions \<open>toLowerCase_ascii\<close> and \<open>trim_ascii\<close>
  defined here are their restrictions to ASCII text, where the letters \<open>A\<close> to \<open>Z\<close> are mapped to \<open>a\<close>
  to \<open>z\<close> and the white space removed from both ends is tab, line feed, vertical tab,
  form feed, carriage return and space; on text with other characters the primitives
  fold and strip more than these two do.
\<close>

definition lower_char :: "char \<Rightarrow> char" where
  "lower_char c =
     (case map_of (zip ''ABCDEFGHIJKLMNOPQRSTUVWXYZ'' ''abcdefghijklmnopqrstuvwxyz'') c of
        None \<Rightarrow> c
      | Some d \<Rightarrow> d)"

definition toLowerCase_ascii :: "string \<Rightarrow> string" where
  "toLowerCase_ascii s = map lower_char s"

definition is_space :: "char \<Rightarrow> bool" where
  "is_space c \<longleftrightarrow> c \<in> set [CHR 0x09, CHR 0x0A, CHR 0x0B, CHR 0x0C, CHR 0x0D, CHR '' '']"

definition trim_ascii :: "string \<Rightarrow> string" where
  "trim_ascii s = rev (dropWhile is_space (rev (dropWhile is_space s)))"

text \<open>\<open>s.includes(q)\<close>: \<open>q\<close> occurs in \<open>s\<close> at some position.\<close>

fun includes_str :: "'a list \<Rightarrow> 'a list \<Rightarrow> bool" where
  "includes_str [] q = (q = [])"
| "includes_str (c # s) q = (prefix q (c # s) \<or> includes_str s q)"

text \<open>
  \<open>xs.slice(b, e)\<close>: a negative index counts from the end, and both indices are
  clamped to the array.
\<close>

definition slice :: "'a list \<Rightarrow> int \<Rightarrow> int \<Rightarrow> 'a list" where
  "slice xs b e =
     (let n = int (length xs);
          k = (if b < 0 then max (n + b) 0 else min b n);
          f = (if e < 0 then max (n + e) 0 else min e n)
      in take (nat (f - k)) (drop (nat k) xs))"

section \<open>The view\<close>

subsection \<open>Loading\<close>

text \<open>
  \<open>loadRequests\<close> up to its \<open>await\<close>: only \<open>setIsLoading(true)\<close> runs before the
  fetch is issued.
\<close>

definition loadRequests_start :: "view_state \<Rightarrow> view_state" where
  "loadRequests_start s = s\<lparr>isLoading := True\<rparr>"

text \<open>
  The continuation of \<open>loadRequests\<close>: \<open>Inr data\<close> is the resolved payload (absent when
  the response body has no \<open>data\<close>), \<open>Inl e\<close> the thrown error. The \<open>finally\<close> block
  runs on both paths.
\<close>

definition loadRequests_settle :: "ApiError + CaseRequest list option \<Rightarrow> view_state \<Rightarrow> view_state" where
  "loadRequests_settle res s =
     (case res of
        Inr data \<Rightarrow> s\<lparr>requests := or_list data [], currentPage := 1, error := ''''\<rparr>
      | Inl e \<Rightarrow> s\<lparr>error := or_opt (message e) ''Failed to load requests''\<rparr>)
     \<lparr>isLoading := False\<rparr>"

text \<open>The whole operation when nothing else happens while the fetch is in flight.\<close>

definition loadRequests :: "ApiError + CaseRequest list option \<Rightarrow> view_state \<Rightarrow> view_state" where
  "loadRequests res s = loadRequests_settle res (loadRequests_start s)"

subsection \<open>Filtering and paging\<close>

text \<open>
  The predicate handed to \<open>requests.filter\<close> and the derived \<open>filteredRequests\<close>, with
  \<open>toLowerCase\<close> as the parameter \<open>lower\<close> and \<open>trim\<close> as the parameter \<open>trm\<close>.
\<close>

definition matches_with ::
    "(string \<Rightarrow> string) \<Rightarrow> (string \<Rightarrow> string) \<Rightarrow> string \<Rightarrow> CaseRequest \<Rightarrow> bool" where
  "matches_with lower trm term r =
     (let q = lower (trm term) in
      if q = [] then True
      else includes_str (lower (or_opt (lawyerName r) '''')) q \<or>
           includes_str (lower (or_opt (lawyerEmail r) '''')) q \<or>
           includes_str (lower (caseId r)) q \<or>
           includes_str (lower (or_str (lawyerAddress r) '''')) q)"

definition filteredRequests_with ::
    "(string \<Rightarrow> string) \<Rightarrow> (string \<Rightarrow> string) \<Rightarrow> view_state \<Rightarrow> CaseRequest list" where
  "filteredRequests_with lower trm s =
     (if length (requests s) > 0 then filter (matches_with lower trm (searchTerm s)) (requests s)
      else [])"

text \<open>
  The two with the ASCII restrictions of the primitives: what the view computes when
  the query and the fields of the requests are ASCII text.
\<close>

definition matches :: "string \<Rightarrow> CaseRequest \<Rightarrow> bool" where
  "matches term r = matches_with toLowerCase_ascii trim_ascii term r"

definition filteredRequests :: "view_state \<Rightarrow> CaseRequest list" where
  "filteredRequests s = filteredRequests_with toLowerCase_ascii trim_ascii s"

text \<open>
  \<open>Math.max(1, Math.ceil(filteredRequests.length / pageSize))\<close>. The quotient is a
  JavaScript number, modelled as a real; for \<open>pageSize = 0\<close> JavaScript yields
  \<open>Infinity\<close> or \<open>NaN\<close>, which this model does not represent, so every statement about
  \<open>totalPages\<close> is for a non-zero page size. The view only ever stores 6, 8 or 12.
\<close>

definition totalPages :: "view_state \<Rightarrow> int" where
  "totalPages s = max 1 \<lceil>real (length (filteredRequests s)) / real_of_int (pageSize s)\<rceil>"

definition displayedRequests :: "view_state \<Rightarrow> CaseRequest list" where
  "displayedRequests s =
     slice (filteredRequests s)
       ((currentPage s - 1) * pageSize s)
       ((currentPage s - 1) * pageSize s + pageSize s)"

subsection \<open>Approval\<close>

text \<open>\<open>approving[id]\<close> used as a condition: a missing key is \<open>undefined\<close>, hence falsy.\<close>

definition is_approving :: "view_state \<Rightarrow> string \<Rightarrow> bool" where
  "is_approving s i = (case approving s i of None \<Rightarrow> False | Some b \<Rightarrow> b)"

text \<open>
  \<open>handleApprove\<close> up to its \<open>await\<close>. The result is the new state and the list of
  \<open>assignLawyer\<close> calls issued, each with its two arguments.
\<close>

definition handleApprove_start :: "CaseRequest \<Rightarrow> view_state \<Rightarrow> view_state \<times> (string \<times> string) list" where
  "handleApprove_start req s =
     (if is_approving s (id_of req) then (s, [])
      else (s\<lparr>approving := (approving s)(id_of req \<mapsto> True)\<rparr>,
            [(caseId req, lawyerAddress req)]))"

text \<open>
  The continuation of \<open>handleApprove\<close>; the payload of a resolved call is not used.
  Both \<open>setRequests\<close> and \<open>setApproving\<close> are given updater functions, so they act on
  the state of the moment the call settles.
\<close>

definition handleApprove_settle :: "CaseRequest \<Rightarrow> ApiError + unit \<Rightarrow> view_state \<Rightarrow> view_state" where
  "handleApprove_settle req res s =
     (case res of
        Inr _ \<Rightarrow> s\<lparr>requests := filter (\<lambda>r. id_of r \<noteq> id_of req) (requests s)\<rparr>
      | Inl e \<Rightarrow> s\<lparr>error := or_opt (message e) ''Approval failed''\<rparr>)
     \<lparr>approving := (approving s)(id_of req \<mapsto> False)\<rparr>"

text \<open>The whole operation when nothing else happens while the call is in flight.\<close>

definition handleApprove :: "CaseRequest \<Rightarrow> ApiError + unit \<Rightarrow> view_state \<Rightarrow> view_state" where
  "handleApprove req res s =
     (if is_approving s (id_of req) then s
      else handleApprove_settle req res (fst (handleApprove_start req s)))"

subsection \<open>Controls\<close>

text \<open>The \<open>onChange\<close> handler of the search input; \<open>v\<close> is \<open>e.target.value\<close>.\<close>

definition search_onChange :: "string \<Rightarrow> view_state \<Rightarrow> view_state" where
  "search_onChange v s = s\<lparr>searchTerm := v, currentPage := 1\<rparr>"

text \<open>
  The \<open>onChange\<close> handler of the page-size select; \<open>n\<close> is \<open>Number(e.target.value)\<close>,
  the number of the chosen option.
\<close>

definition pageSize_onChange :: "int \<Rightarrow> view_state \<Rightarrow> view_state" where
  "pageSize_onChange n s = s\<lparr>pageSize := n, currentPage := 1\<rparr>"

definition prev_onClick :: "view_state \<Rightarrow> view_state" where
  "prev_onClick s = s\<lparr>currentPage := max 1 (currentPage s - 1)\<rparr>"

definition next_onClick :: "view_state \<Rightarrow> view_state" where
  "next_onClick s = s\<lparr>currentPage := min (totalPages s) (currentPage s + 1)\<rparr>"

text \<open>
  The numbered page buttons: \<open>Array.from({ length: totalPages })\<close> renders one button
  for each index \<open>i\<close> below \<open>totalPages\<close>, whose handler is
  \<open>setCurrentPage(i + 1)\<close>.
\<close>

definition page_onClick :: "int \<Rightarrow> view_state \<Rightarrow> view_state" where
  "page_onClick page s = s\<lparr>currentPage := page\<rparr>"

text \<open>
  The states that page navigation alone leads to: any sequence of clicks on Prev, Next
  and the numbered buttons that are rendered in the state where the click happens.
\<close>

inductive navigates :: "view_state \<Rightarrow> view_state \<Rightarrow> bool" where
  stay: "navigates s s"
| by_prev: "navigates s s' \<Longrightarrow> navigates s (prev_onClick s')"
| by_next: "navigates s s' \<Longrightarrow> navigates s (next_onClick s')"
| by_page: "navigates s s' \<Longrightarrow> int i < totalPages s' \<Longrightarrow> navigates s (page_onClick (int i + 1) s')"

text \<open>
  Invocations of \<open>handleApprove\<close> one after the other, none of the calls they issue
  having settled yet: each invocation runs on the state the one before it left, and the
  \<open>assignLawyer\<close> calls issued are collected in order.
\<close>

fun approve_clicks :: "CaseRequest list \<Rightarrow> view_state \<Rightarrow> view_state \<times> (string \<times> string) list" where
  "approve_clicks [] s = (s, [])"
| "approve_clicks (req # reqs) s =
     (let (s1, c1) = handleApprove_start req s;
          (s2, c2) = approve_clicks reqs s1
      in (s2, c1 @ c2))"

subsection \<open>Example data\<close>

text \<open>The request of the spec's first scenario, with the identifier as a parameter.\<close>

definition example_request :: "string \<Rightarrow> CaseRequest" where
  "example_request i =
     \<lparr>id_of = i, caseId = ''C1'', lawyerAddress = ''0xA'', lawyerUid = None,
      requestedAt = 1000, status = PENDING, lawyerName = None, lawyerEmail = None\<rparr>"

text \<open>Seven loaded requests, six to a page.\<close>

definition seven_requests :: view_state where
  "seven_requests =
     initial_state\<lparr>requests := map example_request [''1'', ''2'', ''3'', ''4'', ''5'', ''6'', ''7''],
                   isLoading := False\<rparr>"

text \<open>A request with a capitalised display name, and a search for it in lower case.\<close>

definition alice :: CaseRequest where
  "alice = (example_request ''1'')\<lparr>lawyerName := Some ''Alice''\<rparr>"

definition alice_search :: view_state where
  "alice_search =
     initial_state\<lparr>requests := [alice, example_request ''2''], isLoading := False,
                   searchTerm := ''alice ''\<rparr>"

section \<open>Properties\<close>

text \<open>
  C9: for every state, changing the search query or changing the page size sets the
  current page to 1. The handlers store the new query, respectively the new page size,
  and leave the rest of the state as it is.
\<close>

theorem C9_query_or_page_size_resets_page:
  "currentPage (search_onChange v s) = 1 \<and>
   currentPage (pageSize_onChange n s) = 1 \<and>
   search_onChange v s = s\<lparr>searchTerm := v, currentPage := 1\<rparr> \<and>
   pageSize_onChange n s = s\<lparr>pageSize := n, currentPage := 1\<rparr>"
  by (simp add: search_onChange_def pageSize_onChange_def)

subsection \<open>Paging\<close>

lemma int_ceil_bounds:
  assumes "0 < (p::int)"
  shows "k \<le> ((k + p - 1) div p) * p" and "((k + p - 1) div p - 1) * p < k"
proof -
  define z where "z = (k + p - 1) div p"
  define m where "m = (k + p - 1) mod p"
  have eq: "p * z + m = k + p - 1"
    by (simp add: z_def m_def)
  have m: "0 \<le> m" "m < p"
    using assms by (simp_all add: m_def)
  have "k \<le> p * z" and "p * z - p < k"
    using eq m by linarith+
  then show "k \<le> ((k + p - 1) div p) * p" and "((k + p - 1) div p - 1) * p < k"
    by (simp_all add: z_def algebra_simps)
qed

lemma ceil_div:
  assumes "0 < (p::int)"
  shows "\<lceil>real n / real_of_int p\<rceil> = (int n + p - 1) div p"
proof (rule ceiling_unique)
  let ?z = "(int n + p - 1) div p"
  have "real_of_int ((?z - 1) * p) < real_of_int (int n)"
    using int_ceil_bounds(2) [OF assms, of "int n"] by (simp only: of_int_less_iff)
  then show "real_of_int ?z - 1 < real n / real_of_int p"
    using assms by (simp add: pos_less_divide_eq)
  have "real_of_int (int n) \<le> real_of_int (?z * p)"
    using int_ceil_bounds(1) [OF assms, of "int n"] by (simp only: of_int_le_iff)
  then show "real n / real_of_int p \<le> real_of_int ?z"
    using assms by (simp add: pos_divide_le_eq)
qed

lemma slice_page:
  assumes "0 \<le> b" and "0 \<le> p"
  shows "slice xs b (b + p) = take (nat p) (drop (nat b) xs)"
proof (cases "b \<le> int (length xs)")
  case True
  let ?n = "int (length xs)"
  have len: "length (drop (nat b) xs) = nat (?n - b)"
    using assms True by (simp add: nat_diff_distrib)
  have "slice xs b (b + p) = take (nat (min (b + p) ?n - b)) (drop (nat b) xs)"
    using assms True by (simp add: slice_def Let_def)
  also have "\<dots> = take (nat p) (drop (nat b) xs)"
  proof (cases "b + p \<le> ?n")
    case True
    then show ?thesis by simp
  next
    case False
    then have "min (b + p) ?n - b = ?n - b" by simp
    moreover have "nat (?n - b) \<le> nat p" using False by simp
    ultimately show ?thesis using len by simp
  qed
  finally show ?thesis .
next
  case False
  with assms show ?thesis
    by (simp add: slice_def Let_def)
qed

lemma concat_pages:
  "concat (map (\<lambda>i. take p (drop (i * p) xs)) [0..<m]) = take (m * p) xs"
proof (induction m)
  case 0
  show ?case by simp
next
  case (Suc m)
  have "take (Suc m * p) xs = take (m * p + p) xs"
    by (simp add: add.commute)
  also have "\<dots> = take (m * p) xs @ take p (drop (m * p) xs)"
    by (rule take_add)
  finally show ?case using Suc.IH by simp
qed

lemma upto_as_upt: "[1..int m] = map (\<lambda>i. int i + 1) [0..<m]"
  by (induction m) (simp_all add: upto_rec2)

lemma filteredRequests_currentPage [simp]:
  "filteredRequests (s\<lparr>currentPage := pg\<rparr>) = filteredRequests s"
  by (simp add: filteredRequests_def filteredRequests_with_def)

lemma totalPages_int:
  assumes "0 < pageSize s"
  shows "totalPages s = max 1 ((int (length (filteredRequests s)) + pageSize s - 1) div pageSize s)"
  using assms by (simp add: totalPages_def ceil_div)

lemma totalPages_ge_1: "1 \<le> totalPages s"
  by (simp add: totalPages_def)

lemma totalPages_least:
  assumes "0 < pageSize s" and "1 \<le> k"
  shows "totalPages s \<le> k \<longleftrightarrow> int (length (filteredRequests s)) \<le> k * pageSize s"
proof -
  let ?n = "int (length (filteredRequests s))" and ?p = "pageSize s"
  let ?z = "(?n + ?p - 1) div ?p"
  have up: "?n \<le> ?z * ?p" and lo: "(?z - 1) * ?p < ?n"
    using int_ceil_bounds [OF assms(1), of ?n] by simp_all
  have "?z \<le> k \<longleftrightarrow> ?n \<le> k * ?p"
  proof
    assume "?z \<le> k"
    then have "?z * ?p \<le> k * ?p" using assms(1) by (simp add: mult_right_mono)
    with up show "?n \<le> k * ?p" by linarith
  next
    assume "?n \<le> k * ?p"
    with lo have "(?z - 1) * ?p < k * ?p" by linarith
    then have "?z - 1 < k" using assms(1) by (simp add: mult_less_cancel_right)
    then show "?z \<le> k" by simp
  qed
  then show ?thesis
    using assms by (simp add: totalPages_int)
qed

lemma displayed_slice:
  assumes "0 < pageSize s" and "1 \<le> pg"
  shows "displayedRequests (s\<lparr>currentPage := pg\<rparr>) =
         take (nat (pageSize s)) (drop (nat ((pg - 1) * pageSize s)) (filteredRequests s))"
proof -
  have "0 \<le> (pg - 1) * pageSize s"
    using assms by simp
  then have "slice (filteredRequests s) ((pg - 1) * pageSize s) ((pg - 1) * pageSize s + pageSize s) =
        take (nat (pageSize s)) (drop (nat ((pg - 1) * pageSize s)) (filteredRequests s))"
    using assms by (intro slice_page) simp_all
  then show ?thesis
    by (simp add: displayedRequests_def)
qed

lemma displayed_page:
  assumes "0 < pageSize s"
  shows "displayedRequests (s\<lparr>currentPage := int i + 1\<rparr>) =
         take (nat (pageSize s)) (drop (i * nat (pageSize s)) (filteredRequests s))"
proof -
  have "0 \<le> int i * pageSize s" using assms by simp
  then have "slice (filteredRequests s) (int i * pageSize s) (int i * pageSize s + pageSize s) =
        take (nat (pageSize s)) (drop (nat (int i * pageSize s)) (filteredRequests s))"
    using assms by (intro slice_page) simp_all
  moreover have "nat (int i * pageSize s) = i * nat (pageSize s)"
    by (simp add: nat_mult_distrib)
  ultimately show ?thesis
    by (simp add: displayedRequests_def)
qed

text \<open>
  C1: for every request collection, search query and (positive) page size, the total page
  count is \<open>max(1, ceiling(filtered-count / pageSize))\<close>: the integer ceiling of the
  quotient, and with it the least \<open>k \<ge> 1\<close> such that \<open>k\<close> pages of \<open>pageSize\<close>
  entries hold the filtered collection. The slice displayed on a page is the part of
  the filtered collection that starts at index \<open>(page - 1) * pageSize\<close> and has
  \<open>pageSize\<close> entries (fewer where the collection ends before). Concatenating the
  displayed slices of pages 1 to \<open>totalPages\<close> gives the filtered collection itself:
  each entry once, in the original order.
\<close>

theorem C1_pages_partition_filtered:
  assumes "0 < pageSize s"
  shows "totalPages s = max 1 ((int (length (filteredRequests s)) + pageSize s - 1) div pageSize s) \<and>
         (\<forall>k\<ge>1. totalPages s \<le> k \<longleftrightarrow> int (length (filteredRequests s)) \<le> k * pageSize s) \<and>
         (\<forall>pg\<ge>1. displayedRequests (s\<lparr>currentPage := pg\<rparr>) =
            take (nat (pageSize s)) (drop (nat ((pg - 1) * pageSize s)) (filteredRequests s))) \<and>
         concat (map (\<lambda>pg. displayedRequests (s\<lparr>currentPage := pg\<rparr>)) [1..totalPages s]) =
           filteredRequests s"
proof (intro conjI allI impI)
  show "totalPages s = max 1 ((int (length (filteredRequests s)) + pageSize s - 1) div pageSize s)"
    using assms by (rule totalPages_int)
next
  fix k :: int
  assume "1 \<le> k"
  with assms show "totalPages s \<le> k \<longleftrightarrow> int (length (filteredRequests s)) \<le> k * pageSize s"
    by (rule totalPages_least)
next
  fix pg :: int
  assume "1 \<le> pg"
  with assms show "displayedRequests (s\<lparr>currentPage := pg\<rparr>) =
      take (nat (pageSize s)) (drop (nat ((pg - 1) * pageSize s)) (filteredRequests s))"
    by (rule displayed_slice)
next
  define t where "t = nat (totalPages s)"
  define p where "p = nat (pageSize s)"
  have t: "totalPages s = int t"
    using totalPages_ge_1 [of s] by (simp add: t_def)
  have "int (length (filteredRequests s)) \<le> totalPages s * pageSize s"
    using totalPages_least [OF assms totalPages_ge_1, of s] by simp
  then have "int (length (filteredRequests s)) \<le> int (t * p)"
    using assms by (simp add: t p_def)
  then have cover: "length (filteredRequests s) \<le> t * p"
    by (simp only: of_nat_le_iff)
  have "concat (map (\<lambda>pg. displayedRequests (s\<lparr>currentPage := pg\<rparr>)) [1..totalPages s]) =
        concat (map (\<lambda>i. take p (drop (i * p) (filteredRequests s))) [0..<t])"
    using assms by (simp add: t upto_as_upt comp_def displayed_page p_def)
  also have "\<dots> = take (t * p) (filteredRequests s)"
    by (rule concat_pages)
  also have "\<dots> = filteredRequests s"
    using cover by simp
  finally show "concat (map (\<lambda>pg. displayedRequests (s\<lparr>currentPage := pg\<rparr>)) [1..totalPages s]) =
    filteredRequests s" .
qed

lemma filtered_seven: "filteredRequests seven_requests = requests seven_requests"
  by (simp add: filteredRequests_def filteredRequests_with_def seven_requests_def
      initial_state_def matches_with_def toLowerCase_ascii_def trim_ascii_def)

text \<open>
  Seven requests, six to a page: two pages, the first showing the requests 1 to 6 and
  the second the request 7.
\<close>

theorem C1_witness:
  "0 < pageSize seven_requests \<and>
   totalPages seven_requests = 2 \<and>
   displayedRequests (seven_requests\<lparr>currentPage := 1\<rparr>) =
     map example_request [''1'', ''2'', ''3'', ''4'', ''5'', ''6''] \<and>
   displayedRequests (seven_requests\<lparr>currentPage := 2\<rparr>) = [example_request ''7''] \<and>
   displayedRequests (seven_requests\<lparr>currentPage := 1\<rparr>) @
   displayedRequests (seven_requests\<lparr>currentPage := 2\<rparr>) = requests seven_requests"
proof -
  have ps: "pageSize seven_requests = 6"
    by (simp add: seven_requests_def initial_state_def)
  then have p: "0 < pageSize seven_requests"
    by simp
  have rs: "requests seven_requests =
      map example_request [''1'', ''2'', ''3'', ''4'', ''5'', ''6'', ''7'']"
    by (simp add: seven_requests_def)
  have len: "length (filteredRequests seven_requests) = 7"
    by (simp add: filtered_seven rs)
  note c1 = C1_pages_partition_filtered [OF p]
  from c1 have t: "totalPages seven_requests = 2"
    by (simp add: len ps)
  from c1 have "displayedRequests (seven_requests\<lparr>currentPage := 1\<rparr>) =
      take (nat (pageSize seven_requests))
        (drop (nat ((1 - 1) * pageSize seven_requests)) (filteredRequests seven_requests))"
    by simp
  then have page1: "displayedRequests (seven_requests\<lparr>currentPage := 1\<rparr>) =
      map example_request [''1'', ''2'', ''3'', ''4'', ''5'', ''6'']"
    by (simp add: ps filtered_seven rs)
  from c1 have "displayedRequests (seven_requests\<lparr>currentPage := 2\<rparr>) =
      take (nat (pageSize seven_requests))
        (drop (nat ((2 - 1) * pageSize seven_requests)) (filteredRequests seven_requests))"
    by simp
  then have page2: "displayedRequests (seven_requests\<lparr>currentPage := 2\<rparr>) = [example_request ''7'']"
    by (simp add: ps filtered_seven rs)
  from c1 have cat:
    "concat (map (\<lambda>pg. displayedRequests (seven_requests\<lparr>currentPage := pg\<rparr>))
       [1..totalPages seven_requests]) = filteredRequests seven_requests"
    by blast
  have "[1..2::int] = [1, 2]"
    by (simp add: upto_rec1)
  with cat have "displayedRequests (seven_requests\<lparr>currentPage := 1\<rparr>) @
      displayedRequests (seven_requests\<lparr>currentPage := 2\<rparr>) = filteredRequests seven_requests"
    by (simp add: t)
  then have "displayedRequests (seven_requests\<lparr>currentPage := 1\<rparr>) @
      displayedRequests (seven_requests\<lparr>currentPage := 2\<rparr>) = requests seven_requests"
    by (simp only: filtered_seven)
  with p t page1 page2 show ?thesis
    by (intro conjI)
qed

subsection \<open>Filtering\<close>

lemma includes_str_sublist: "includes_str s q \<longleftrightarrow> sublist q s"
  by (induction s) (simp_all add: sublist_Cons_right)

lemma or_opt_empty: "or_opt x [] = (case x of None \<Rightarrow> [] | Some n \<Rightarrow> n)"
  by (simp add: or_opt_def or_str_def split: option.split)

lemma or_str_empty: "or_str x [] = x"
  by (simp add: or_str_def)

text \<open>
  C4, as the code has it, for whatever \<open>toLowerCase\<close> (\<open>lower\<close>) and \<open>trim\<close>
  (\<open>trm\<close>) compute: when the query is empty after trimming and case-folding, every
  request passes the filter. Otherwise a request passes if and only if the trimmed,
  case-folded query is a substring of at least one of its case-folded display name
  (the empty string if absent), its case-folded display email (the empty string if
  absent), its case-folded case identifier or its case-folded requester address. The
  fields are case-folded as well as the query, which is what makes the search
  case-insensitive; the filtered collection keeps the order of the request collection.
\<close>

theorem C4_filter_case_folded_substring:
  "(lower (trm (searchTerm s)) = [] \<longrightarrow> filteredRequests_with lower trm s = requests s) \<and>
   (lower (trm (searchTerm s)) \<noteq> [] \<longrightarrow>
      filteredRequests_with lower trm s =
        filter (\<lambda>r.
            sublist (lower (trm (searchTerm s)))
              (lower (case lawyerName r of None \<Rightarrow> [] | Some n \<Rightarrow> n)) \<or>
            sublist (lower (trm (searchTerm s)))
              (lower (case lawyerEmail r of None \<Rightarrow> [] | Some m \<Rightarrow> m)) \<or>
            sublist (lower (trm (searchTerm s))) (lower (caseId r)) \<or>
            sublist (lower (trm (searchTerm s))) (lower (lawyerAddress r)))
          (requests s))"
  by (cases "requests s")
     (simp_all add: filteredRequests_with_def matches_with_def Let_def includes_str_sublist
        or_opt_empty or_str_empty cong: filter_cong)

lemma alice_query: "toLowerCase_ascii (trim_ascii (searchTerm alice_search)) = ''alice''"
  by (simp add: alice_search_def toLowerCase_ascii_def trim_ascii_def lower_char_def is_space_def)

text \<open>
  On ASCII text: the search term \<open>alice\<close> followed by a space selects the request
  whose display name is \<open>Alice\<close> and no other.
\<close>

theorem C4_witness:
  "toLowerCase_ascii (trim_ascii (searchTerm alice_search)) = ''alice'' \<and>
   filteredRequests_with toLowerCase_ascii trim_ascii alice_search = [alice] \<and>
   filteredRequests alice_search = [alice]"
proof -
  have "filteredRequests_with toLowerCase_ascii trim_ascii alice_search = [alice]"
    using C4_filter_case_folded_substring [of toLowerCase_ascii trim_ascii alice_search]
    by (simp add: alice_query)
       (simp add: alice_search_def alice_def example_request_def toLowerCase_ascii_def
          lower_char_def sublist_code)
  then show ?thesis
    by (simp add: alice_query filteredRequests_def)
qed

text \<open>
  Without case-folding the fields the statement fails: the request named \<open>Alice\<close>
  passes the filter for the query \<open>alice\<close>, which is a substring of none of its
  fields as they are stored.
\<close>

theorem C4_counterexample:
  "toLowerCase_ascii (trim_ascii (searchTerm alice_search)) = ''alice'' \<and>
   alice \<in> set (filteredRequests alice_search) \<and>
   \<not> (sublist ''alice'' (case lawyerName alice of None \<Rightarrow> [] | Some n \<Rightarrow> n) \<or>
      sublist ''alice'' (case lawyerEmail alice of None \<Rightarrow> [] | Some m \<Rightarrow> m) \<or>
      sublist ''alice'' (caseId alice) \<or>
      sublist ''alice'' (lawyerAddress alice))"
proof -
  have "matches_with toLowerCase_ascii trim_ascii (searchTerm alice_search) alice"
    by (simp add: matches_with_def alice_query)
       (simp add: alice_def example_request_def or_opt_def or_str_def toLowerCase_ascii_def
          lower_char_def)
  then have "alice \<in> set (filteredRequests alice_search)"
    by (simp add: filteredRequests_def filteredRequests_with_def) (simp add: alice_search_def)
  moreover have "\<not> (sublist ''alice'' (case lawyerName alice of None \<Rightarrow> [] | Some n \<Rightarrow> n) \<or>
      sublist ''alice'' (case lawyerEmail alice of None \<Rightarrow> [] | Some m \<Rightarrow> m) \<or>
      sublist ''alice'' (caseId alice) \<or>
      sublist ''alice'' (lawyerAddress alice))"
    by (simp add: alice_def example_request_def sublist_code)
  ultimately show ?thesis
    by (simp add: alice_query)
qed

subsection \<open>Loading\<close>

lemma or_opt_cases:
  "or_opt x d = (case x of None \<Rightarrow> d | Some m \<Rightarrow> if m = [] then d else m)"
  by (simp add: or_opt_def or_str_def split: option.split)

text \<open>
  C5, as the code has it: before the fetch call is made the load operation only sets the
  loading flag, so the error message is what it was while the fetch is in flight. The
  error message is cleared when the fetch succeeds.
\<close>

theorem C5_error_kept_until_fetch_settles:
  "loadRequests_start s = s\<lparr>isLoading := True\<rparr> \<and>
   error (loadRequests_start s) = error s \<and>
   error (loadRequests_settle (Inr data) s') = [] \<and>
   error (loadRequests (Inr data) s) = []"
  by (simp add: loadRequests_def loadRequests_start_def loadRequests_settle_def)

text \<open>
  A load that begins in a state holding an error message still holds that message
  while the fetch is in flight.
\<close>

theorem C5_counterexample:
  "error (loadRequests_start (initial_state\<lparr>error := ''Approval failed''\<rparr>)) = ''Approval failed'' \<and>
   error (loadRequests_start (initial_state\<lparr>error := ''Approval failed''\<rparr>)) \<noteq> []"
  by (simp add: loadRequests_start_def)

text \<open>
  C6: for every failing fetch, the load operation sets the error message to the
  failure's message, or to the fixed fallback \<open>Failed to load requests\<close> when the
  failure carries no message (the message is absent or the empty string, the two cases
  in which \<open>e.message || ...\<close> takes the fallback); the loading flag is cleared, and the
  request collection keeps what it held, which is the empty collection on the initial
  load.
\<close>

theorem C6_load_failure:
  "(\<forall>m. message e = Some m \<and> m \<noteq> [] \<longrightarrow> error (loadRequests_settle (Inl e) s) = m) \<and>
   (message e = None \<or> message e = Some [] \<longrightarrow>
      error (loadRequests_settle (Inl e) s) = ''Failed to load requests'') \<and>
   \<not> isLoading (loadRequests_settle (Inl e) s) \<and>
   requests (loadRequests_settle (Inl e) s) = requests s \<and>
   requests (loadRequests (Inl e) initial_state) = []"
  by (auto simp: loadRequests_def loadRequests_start_def loadRequests_settle_def or_opt_cases
      initial_state_def)

theorem C6_witness:
  "message (ApiError None) = None \<and>
   error (loadRequests (Inl (ApiError None)) initial_state) = ''Failed to load requests'' \<and>
   \<not> isLoading (loadRequests (Inl (ApiError None)) initial_state) \<and>
   requests (loadRequests (Inl (ApiError None)) initial_state) = [] \<and>
   error (loadRequests (Inl (ApiError (Some ''network down''))) initial_state) = ''network down''"
  using C6_load_failure [of "ApiError None" "loadRequests_start initial_state"]
    C6_load_failure [of "ApiError (Some ''network down'')" "loadRequests_start initial_state"]
  by (simp add: loadRequests_def) (simp add: loadRequests_start_def initial_state_def)

text \<open>
  C8: for every successful fetch result, the load operation replaces the request
  collection with that result, or with the empty collection when the result is empty
  or absent, and resets the current page to 1.
\<close>

theorem C8_load_success:
  "requests (loadRequests_settle (Inr (Some d)) s) = d \<and>
   requests (loadRequests_settle (Inr (Some [])) s) = [] \<and>
   requests (loadRequests_settle (Inr None) s) = [] \<and>
   currentPage (loadRequests_settle (Inr data) s) = 1 \<and>
   requests (loadRequests (Inr data) s) = (case data of None \<Rightarrow> [] | Some d \<Rightarrow> d) \<and>
   currentPage (loadRequests (Inr data) s) = 1"
  by (simp add: loadRequests_def loadRequests_start_def loadRequests_settle_def or_list_def)

subsection \<open>Approval\<close>

lemma filter_other_keys:
  assumes "distinct (map f xs)" and "r \<in> set xs"
  shows "filter (\<lambda>x. f x \<noteq> f r) xs = remove1 r xs"
  using assms
proof (induction xs)
  case Nil
  then show ?case by simp
next
  case (Cons x xs)
  show ?case
  proof (cases "x = r")
    case True
    have "\<forall>y\<in>set xs. f y \<noteq> f r"
      using Cons.prems(1) True by (auto simp: image_iff)
    then have "filter (\<lambda>y. f y \<noteq> f r) xs = xs"
      by (simp add: filter_id_conv)
    with True show ?thesis by simp
  next
    case False
    with Cons.prems have "r \<in> set xs" and "f x \<noteq> f r"
      by auto
    with Cons show ?thesis
      using False by simp
  qed
qed

lemma requests_start:
  "requests (fst (handleApprove_start req s)) = requests s"
  by (simp add: handleApprove_start_def)

text \<open>
  C2: in a request collection with unique ids, approving one of its requests removes
  exactly one entry, the one whose id is the approved request's id, when the assign
  call succeeds, and removes no entry when the assign call fails. This holds for the
  state in which the call settles, and so for the whole operation when it starts in a
  state where the request is not busy.
\<close>

theorem C2_approve_removes_matching_entry:
  assumes "distinct (map id_of (requests s))"
    and "r \<in> set (requests s)"
    and "id_of r = id_of req"
  shows "requests (handleApprove_settle req (Inr u) s) = remove1 r (requests s) \<and>
         length (requests (handleApprove_settle req (Inr u) s)) + 1 = length (requests s) \<and>
         r \<notin> set (requests (handleApprove_settle req (Inr u) s)) \<and>
         requests (handleApprove_settle req (Inl e) s) = requests s \<and>
         (\<not> is_approving s (id_of req) \<longrightarrow>
            requests (handleApprove req (Inr u) s) = remove1 r (requests s) \<and>
            requests (handleApprove req (Inl e) s) = requests s)"
proof -
  have d: "distinct (requests s)"
    using assms(1) by (simp add: distinct_map)
  have ok: "requests (handleApprove_settle req (Inr u) s) = remove1 r (requests s)"
    using filter_other_keys [OF assms(1,2)] assms(3)
    by (simp add: handleApprove_settle_def)
  have len: "length (remove1 r (requests s)) + 1 = length (requests s)"
    using assms(2) by (simp add: length_remove1) (cases "requests s"; simp)
  have gone: "r \<notin> set (remove1 r (requests s))"
    using d by simp
  have fail: "requests (handleApprove_settle req (Inl e) t) = requests t" for t
    by (simp add: handleApprove_settle_def)
  have start: "requests (handleApprove_settle req (Inr u) (fst (handleApprove_start req s))) =
      remove1 r (requests s)"
    using filter_other_keys [OF assms(1,2)] assms(3)
    by (simp add: handleApprove_settle_def handleApprove_start_def)
  show ?thesis
    using ok len gone fail start
    by (simp add: handleApprove_def requests_start)
qed

lemma seven_ids: "distinct (map id_of (requests seven_requests))"
  by (simp add: seven_requests_def example_request_def)

lemma seven_idle: "\<not> is_approving seven_requests i"
  by (simp add: is_approving_def seven_requests_def initial_state_def)

theorem C2_witness:
  "distinct (map id_of (requests seven_requests)) \<and>
   example_request ''1'' \<in> set (requests seven_requests) \<and>
   requests (handleApprove (example_request ''1'') (Inr ()) seven_requests) =
     map example_request [''2'', ''3'', ''4'', ''5'', ''6'', ''7''] \<and>
   requests (handleApprove (example_request ''1'') (Inl (ApiError (Some ''network down''))) seven_requests) =
     requests seven_requests"
proof -
  have mem: "example_request ''1'' \<in> set (requests seven_requests)"
    by (simp add: seven_requests_def)
  have rest: "remove1 (example_request ''1'') (requests seven_requests) =
      map example_request [''2'', ''3'', ''4'', ''5'', ''6'', ''7'']"
    by (simp add: seven_requests_def)
  show ?thesis
    using C2_approve_removes_matching_entry [OF seven_ids mem refl,
        of "()" "ApiError (Some ''network down'')"] seven_ids mem
    by (simp add: seven_idle rest)
qed

lemma approve_clicks_busy:
  "is_approving s (id_of req) \<Longrightarrow> approve_clicks (replicate n req) s = (s, [])"
  by (induction n) (simp_all add: handleApprove_start_def)

lemma busy_after_start:
  "is_approving (fst (handleApprove_start req s)) (id_of req)"
  by (simp add: handleApprove_start_def is_approving_def)

text \<open>
  C3: invoking the approval operation while the request's id is marked busy in the
  approving map is a no-op: the state is unchanged and no assign call is issued. So
  invoking approval twice (or any number of times) on the same request, each
  invocation seeing the state the one before it left and the first call still
  outstanding, issues exactly one assign call for that request.
\<close>

theorem C3_busy_request_is_not_resubmitted:
  "(is_approving s (id_of req) \<longrightarrow>
      handleApprove_start req s = (s, []) \<and> handleApprove req res s = s) \<and>
   (\<not> is_approving s (id_of req) \<longrightarrow>
      snd (approve_clicks [req, req] s) = [(caseId req, lawyerAddress req)] \<and>
      snd (approve_clicks (replicate (Suc n) req) s) = [(caseId req, lawyerAddress req)] \<and>
      fst (approve_clicks (replicate (Suc n) req) s) = fst (handleApprove_start req s))"
proof (intro conjI impI)
  assume busy: "is_approving s (id_of req)"
  then show "handleApprove_start req s = (s, [])"
    by (simp add: handleApprove_start_def)
  from busy show "handleApprove req res s = s"
    by (simp add: handleApprove_def)
next
  assume idle: "\<not> is_approving s (id_of req)"
  define s1 where "s1 = fst (handleApprove_start req s)"
  have first: "handleApprove_start req s = (s1, [(caseId req, lawyerAddress req)])"
    using idle by (simp add: s1_def handleApprove_start_def)
  have "is_approving s1 (id_of req)"
    unfolding s1_def by (rule busy_after_start)
  then have later: "approve_clicks (replicate k req) s1 = (s1, [])" for k
    by (rule approve_clicks_busy)
  have all: "approve_clicks (replicate (Suc k) req) s = (s1, [(caseId req, lawyerAddress req)])" for k
    by (simp add: first later)
  show "snd (approve_clicks (replicate (Suc n) req) s) = [(caseId req, lawyerAddress req)]"
    by (simp only: all snd_conv)
  show "fst (approve_clicks (replicate (Suc n) req) s) = fst (handleApprove_start req s)"
    by (simp only: all first fst_conv)
  have "[req, req] = replicate (Suc (Suc 0)) req"
    by simp
  then show "snd (approve_clicks [req, req] s) = [(caseId req, lawyerAddress req)]"
    by (simp only: all snd_conv)
qed

theorem C3_witness:
  "\<not> is_approving seven_requests (id_of (example_request ''1'')) \<and>
   snd (approve_clicks [example_request ''1'', example_request ''1''] seven_requests) = [(''C1'', ''0xA'')] \<and>
   is_approving (fst (handleApprove_start (example_request ''1'') seven_requests)) (id_of (example_request ''1'')) \<and>
   handleApprove_start (example_request ''1'') (fst (handleApprove_start (example_request ''1'') seven_requests)) =
     (fst (handleApprove_start (example_request ''1'') seven_requests), [])"
  using C3_busy_request_is_not_resubmitted [of seven_requests "example_request ''1''"]
    C3_busy_request_is_not_resubmitted
      [of "fst (handleApprove_start (example_request ''1'') seven_requests)" "example_request ''1''"]
    busy_after_start [of "example_request ''1''" seven_requests]
  by (simp add: seven_idle) (simp add: example_request_def)

text \<open>
  C7: for every failing assign call, the error message is set to the failure's message,
  or to the fallback \<open>Approval failed\<close> when the message is absent or empty, and the
  request collection, the target entry included, is unchanged. Whether the call
  succeeds or fails, the busy flag of the request's id is false once the operation has
  settled.
\<close>

theorem C7_approve_failure_and_busy_flag:
  "(\<forall>m. message e = Some m \<and> m \<noteq> [] \<longrightarrow> error (handleApprove_settle req (Inl e) s) = m) \<and>
   (message e = None \<or> message e = Some [] \<longrightarrow>
      error (handleApprove_settle req (Inl e) s) = ''Approval failed'') \<and>
   requests (handleApprove_settle req (Inl e) s) = requests s \<and>
   approving (handleApprove_settle req res s) (id_of req) = Some False \<and>
   \<not> is_approving (handleApprove_settle req res s) (id_of req) \<and>
   (\<not> is_approving s (id_of req) \<longrightarrow> \<not> is_approving (handleApprove req res s) (id_of req))"
  by (auto simp: handleApprove_def handleApprove_settle_def is_approving_def or_opt_cases
      split: sum.splits)

theorem C7_witness:
  "message (ApiError (Some ''network down'')) = Some ''network down'' \<and>
   \<not> is_approving seven_requests (id_of (example_request ''1'')) \<and>
   error (handleApprove (example_request ''1'') (Inl (ApiError (Some ''network down''))) seven_requests) =
     ''network down'' \<and>
   error (handleApprove (example_request ''1'') (Inl (ApiError None)) seven_requests) =
     ''Approval failed'' \<and>
   requests (handleApprove (example_request ''1'') (Inl (ApiError None)) seven_requests) =
     requests seven_requests \<and>
   \<not> is_approving (handleApprove (example_request ''1'') (Inr ()) seven_requests) ''1''"
  using C7_approve_failure_and_busy_flag
      [of "ApiError (Some ''network down'')" "example_request ''1''"
          "fst (handleApprove_start (example_request ''1'') seven_requests)" "Inr ()"]
    C7_approve_failure_and_busy_flag
      [of "ApiError None" "example_request ''1''"
          "fst (handleApprove_start (example_request ''1'') seven_requests)" "Inr ()"]
  by (simp add: handleApprove_def seven_idle requests_start) (simp add: example_request_def)

subsection \<open>Page navigation\<close>

lemma totalPages_currentPage [simp]:
  "totalPages (s\<lparr>currentPage := pg\<rparr>) = totalPages s"
  by (simp add: totalPages_def)

lemma navigates_keeps:
  assumes "navigates s s'"
  shows "totalPages s' = totalPages s \<and> pageSize s' = pageSize s \<and> requests s' = requests s"
  using assms
  by (induction rule: navigates.induct)
     (simp_all add: prev_onClick_def next_onClick_def page_onClick_def)

lemma navigates_in_range:
  assumes "navigates s s'" and "1 \<le> currentPage s" and "currentPage s \<le> totalPages s"
  shows "1 \<le> currentPage s' \<and> currentPage s' \<le> totalPages s'"
  using assms
proof (induction rule: navigates.induct)
  case (stay s)
  then show ?case by simp
next
  case (by_prev s s')
  then show ?case by (simp add: prev_onClick_def)
next
  case (by_next s s')
  then show ?case
    using totalPages_ge_1 [of s'] by (simp add: next_onClick_def)
next
  case (by_page s s' i)
  then show ?case by (simp add: page_onClick_def)
qed

text \<open>
  C10: the Prev control sets the current page to \<open>max(1, currentPage - 1)\<close> and the
  Next control sets it to \<open>min(totalPages, currentPage + 1)\<close>. Prev never leaves the
  page below 1, Next never leaves it above the total page count, and from a current
  page between 1 and the total page count, page navigation alone (Prev, Next and the
  numbered buttons) keeps the current page in that range and the total page count as
  it is.
\<close>

theorem C10_navigation_is_clamped:
  assumes "pageSize s \<noteq> 0"
  shows "currentPage (prev_onClick s) = max 1 (currentPage s - 1) \<and>
         currentPage (next_onClick s) = min (totalPages s) (currentPage s + 1) \<and>
         1 \<le> currentPage (prev_onClick s) \<and>
         currentPage (next_onClick s) \<le> totalPages (next_onClick s) \<and>
         (\<forall>s'. navigates s s' \<and> 1 \<le> currentPage s \<and> currentPage s \<le> totalPages s \<longrightarrow>
            1 \<le> currentPage s' \<and> currentPage s' \<le> totalPages s' \<and> totalPages s' = totalPages s)"
  using navigates_in_range [of s] navigates_keeps [of s]
  by (auto simp: prev_onClick_def next_onClick_def)

lemma seven_totalPages: "totalPages seven_requests = 2"
proof -
  have "pageSize seven_requests = 6"
    by (simp add: seven_requests_def initial_state_def)
  moreover have "length (filteredRequests seven_requests) = 7"
    by (simp add: filtered_seven) (simp add: seven_requests_def)
  ultimately show ?thesis
    using totalPages_int [of seven_requests] by simp
qed

text \<open>
  With seven requests, six to a page, Next from page 1 leads to page 2 and a second
  Next stays there; Prev on page 1 stays on page 1.
\<close>

theorem C10_witness:
  "pageSize seven_requests \<noteq> 0 \<and>
   navigates seven_requests (next_onClick (next_onClick seven_requests)) \<and>
   1 \<le> currentPage seven_requests \<and>
   currentPage seven_requests \<le> totalPages seven_requests \<and>
   currentPage (next_onClick seven_requests) = 2 \<and>
   currentPage (next_onClick (next_onClick seven_requests)) = 2 \<and>
   totalPages (next_onClick (next_onClick seven_requests)) = 2 \<and>
   currentPage (prev_onClick seven_requests) = 1"
proof -
  have p: "pageSize seven_requests \<noteq> 0"
    by (simp add: seven_requests_def initial_state_def)
  have p': "pageSize (next_onClick seven_requests) \<noteq> 0"
    using p by (simp add: next_onClick_def)
  have n: "navigates seven_requests (next_onClick (next_onClick seven_requests))"
    by (intro navigates.by_next navigates.stay)
  have c: "currentPage seven_requests = 1"
    by (simp add: seven_requests_def initial_state_def)
  have t: "totalPages (next_onClick seven_requests) = 2"
    by (simp add: next_onClick_def seven_totalPages)
  show ?thesis
    using C10_navigation_is_clamped [OF p] C10_navigation_is_clamped [OF p'] n p c
    by (simp add: seven_totalPages t)
qed

end
